theory Spec2Isabelle
  imports Main "HOL-Library.Multiset"
begin

section \<open>The vote ledger of the forum backend\<close>

text \<open>
  The development embeds the two vote handlers of \<^verbatim>\<open>src/index.js\<close>
  (\<^verbatim>\<open>POST /post-upvote/:id\<close>, lines 380-434, and \<^verbatim>\<open>POST /post-downvote/:id\<close>,
  lines 437-490) and the popularity listing (\<^verbatim>\<open>GET /all-posts/sort-by-popularity\<close>,
  lines 501-520), together with the operations of the document store they call:
  \<^verbatim>\<open>findOne\<close>, \<^verbatim>\<open>updateOne\<close> with the update operators \<^verbatim>\<open>$push\<close>, \<^verbatim>\<open>$pull\<close>,
  \<^verbatim>\<open>$set\<close> on the positional element and \<^verbatim>\<open>$inc\<close>, and the aggregation stages
  \<^verbatim>\<open>$addFields\<close> and \<^verbatim>\<open>$sort\<close>.

  Scope of the model. A post document has numeric counters \<^verbatim>\<open>upVotes\<close> and
  \<^verbatim>\<open>downVotes\<close>, a field \<^verbatim>\<open>votes\<close> that is absent or an array of vote records, and
  further attributes that the vote handlers never read. The value of \<^verbatim>\<open>userEmail\<close> in
  a request body is a string, \<^verbatim>\<open>null\<close>, or missing (\<^verbatim>\<open>undefined\<close>). The handlers run
  behind the \<^verbatim>\<open>verifyToken\<close> middleware; the model starts where the handler body starts.
  The operations of the store complete: a failure of the store itself is not modelled.
\<close>

subsection \<open>Values and documents\<close>

text \<open>
  The JavaScript values a voter key can take. In a stored vote record \<open>Undefined\<close> stands for
  a record without the field \<^verbatim>\<open>userEmail\<close>, which JavaScript reads as \<^verbatim>\<open>undefined\<close>.
\<close>

datatype js_value = Undefined | Null | Str string

datatype json = JStr string | JNum int

type_synonym oid = string

record vote =
  userEmail :: js_value
  voteType :: string

record post =
  post_id :: oid
  votes :: "vote list option"
  upVotes :: int
  downVotes :: int
  payload :: "(string \<times> json) list"

type_synonym collection = "post list"

record response =
  status :: nat
  body :: "(string \<times> json) list"

text \<open>\<^verbatim>\<open>res.send({ message })\<close> answers with status 200; \<^verbatim>\<open>res.status(n).send({ message })\<close>
  with status \<open>n\<close>.\<close>

definition send_status :: "nat \<Rightarrow> string \<Rightarrow> response" where
  "send_status n msg = \<lparr>status = n, body = [(''message'', JStr msg)]\<rparr>"

definition send :: "string \<Rightarrow> response" where
  "send msg = send_status 200 msg"

subsection \<open>The document store\<close>

text \<open>
  The driver writes a field whose JavaScript value is \<^verbatim>\<open>undefined\<close> as \<^verbatim>\<open>null\<close>, in
  documents and in queries alike.
\<close>

fun bson :: "js_value \<Rightarrow> js_value" where
  "bson Undefined = Null"
| "bson v = v"

text \<open>
  The equality condition \<^verbatim>\<open>{ userEmail: q }\<close> of a query, applied to the field \<open>f\<close> of an
  array element: \<^verbatim>\<open>null\<close> matches a field that is \<^verbatim>\<open>null\<close> or absent, a string matches
  the same string.
\<close>

definition field_matches :: "js_value \<Rightarrow> js_value \<Rightarrow> bool" where
  "field_matches q f = (if bson q = Null then f = Null \<or> f = Undefined else f = q)"

text \<open>\<^verbatim>\<open>findOne({ _id })\<close>: the first document with that identifier.\<close>

definition findOne :: "collection \<Rightarrow> oid \<Rightarrow> post option" where
  "findOne c i = find (\<lambda>d. post_id d = i) c"

text \<open>\<^verbatim>\<open>updateOne(filter, update)\<close>: the first document that satisfies the filter is
  updated; when there is none the collection stays as it is.\<close>

fun updateOne :: "(post \<Rightarrow> bool) \<Rightarrow> (post \<Rightarrow> post) \<Rightarrow> collection \<Rightarrow> collection" where
  "updateOne q u [] = []"
| "updateOne q u (d # ds) = (if q d then u d # ds else d # updateOne q u ds)"

text \<open>The two filters of the handlers: \<^verbatim>\<open>{ _id }\<close> and
  \<^verbatim>\<open>{ _id, "votes.userEmail": userEmail }\<close>.\<close>

definition by_id :: "oid \<Rightarrow> post \<Rightarrow> bool" where
  "by_id i d = (post_id d = i)"

definition by_id_and_voter :: "oid \<Rightarrow> js_value \<Rightarrow> post \<Rightarrow> bool" where
  "by_id_and_voter i u d =
     (post_id d = i \<and>
      (case votes d of None \<Rightarrow> False
       | Some vs \<Rightarrow> list_ex (\<lambda>v. field_matches u (userEmail v)) vs))"

text \<open>\<^verbatim>\<open>$inc: { upVotes: a, downVotes: b }\<close>.\<close>

definition inc :: "int \<Rightarrow> int \<Rightarrow> post \<Rightarrow> post" where
  "inc a b d = d\<lparr>upVotes := upVotes d + a, downVotes := downVotes d + b\<rparr>"

text \<open>\<^verbatim>\<open>$push: { votes: { userEmail, voteType } }\<close>: appends the record, and creates the
  array when the field is absent.\<close>

definition push_vote :: "js_value \<Rightarrow> string \<Rightarrow> post \<Rightarrow> post" where
  "push_vote u t d =
     d\<lparr>votes := Some ((case votes d of None \<Rightarrow> [] | Some vs \<Rightarrow> vs)
                        @ [\<lparr>userEmail = bson u, voteType = t\<rparr>])\<rparr>"

text \<open>\<^verbatim>\<open>$pull: { votes: { userEmail } }\<close>: removes every element that matches the
  condition; an absent array stays absent.\<close>

definition pull_votes :: "js_value \<Rightarrow> post \<Rightarrow> post" where
  "pull_votes u d =
     d\<lparr>votes := map_option (filter (\<lambda>v. \<not> field_matches u (userEmail v))) (votes d)\<rparr>"

text \<open>\<^verbatim>\<open>$set: { "votes.$.voteType": t }\<close>: the positional operator addresses the first
  element that matches the query condition on the array.\<close>

fun set_first :: "js_value \<Rightarrow> string \<Rightarrow> vote list \<Rightarrow> vote list" where
  "set_first u t [] = []"
| "set_first u t (v # vs) =
     (if field_matches u (userEmail v) then v\<lparr>voteType := t\<rparr> # vs
      else v # set_first u t vs)"

definition set_voteType :: "js_value \<Rightarrow> string \<Rightarrow> post \<Rightarrow> post" where
  "set_voteType u t d = d\<lparr>votes := map_option (set_first u t) (votes d)\<rparr>"

subsection \<open>The vote handlers\<close>

text \<open>\<^verbatim>\<open>post.votes?.find((vote) => vote.userEmail === userEmail)\<close>: strict equality
  on the value read from the record; an absent array gives no vote.\<close>

definition existingVote :: "post \<Rightarrow> js_value \<Rightarrow> vote option" where
  "existingVote p u =
     (case votes p of None \<Rightarrow> None | Some vs \<Rightarrow> find (\<lambda>v. userEmail v = u) vs)"

text \<open>
  The handlers take the constructor \<^verbatim>\<open>new ObjectId(id)\<close> of the driver as the parameter
  \<open>mk\<close>: it gives \<open>None\<close> where the constructor throws. The throw happens inside the
  \<^verbatim>\<open>try\<close> block, so the \<^verbatim>\<open>catch\<close> answers 500.
\<close>

definition internal_error :: response where
  "internal_error = send_status 500 ''Internal server error''"

text \<open>
  Each handler reads the post once, picks one of three branches from what it read and
  issues a single \<^verbatim>\<open>updateOne\<close>. A branch is the message it will send, the filter and
  the update document of its \<^verbatim>\<open>updateOne\<close>.
\<close>

type_synonym branch = "string \<times> (post \<Rightarrow> bool) \<times> (post \<Rightarrow> post)"

definition upvote_branch :: "oid \<Rightarrow> js_value \<Rightarrow> post \<Rightarrow> branch" where
  "upvote_branch i u p =
     (case existingVote p u of
        Some v \<Rightarrow>
          if voteType v = ''up''
          then (''Upvote removed'', by_id i, inc (-1) 0 \<circ> pull_votes u)
          else (''Vote switched to upvote'', by_id_and_voter i u,
                inc 1 (-1) \<circ> set_voteType u ''up'')
      | None \<Rightarrow> (''Upvote added'', by_id i, inc 1 0 \<circ> push_vote u ''up''))"

definition downvote_branch :: "oid \<Rightarrow> js_value \<Rightarrow> post \<Rightarrow> branch" where
  "downvote_branch i u p =
     (case existingVote p u of
        Some v \<Rightarrow>
          if voteType v = ''down''
          then (''Downvote removed'', by_id i, inc 0 (-1) \<circ> pull_votes u)
          else (''Vote switched to downvote'', by_id_and_voter i u,
                inc (-1) 1 \<circ> set_voteType u ''down'')
      | None \<Rightarrow> (''Downvote added'', by_id i, inc 0 1 \<circ> push_vote u ''down''))"

definition post_upvote ::
  "(string \<Rightarrow> oid option) \<Rightarrow> collection \<Rightarrow> string \<Rightarrow> js_value \<Rightarrow> response \<times> collection" where
  "post_upvote mk c ident u =
     (case mk ident of
        None \<Rightarrow> (internal_error, c)
      | Some i \<Rightarrow>
          (case findOne c i of
             None \<Rightarrow> (send_status 404 ''Post not found'', c)
           | Some p \<Rightarrow>
               (case upvote_branch i u p of
                  (msg, q, upd) \<Rightarrow> (send msg, updateOne q upd c))))"

definition post_downvote ::
  "(string \<Rightarrow> oid option) \<Rightarrow> collection \<Rightarrow> string \<Rightarrow> js_value \<Rightarrow> response \<times> collection" where
  "post_downvote mk c ident u =
     (case mk ident of
        None \<Rightarrow> (internal_error, c)
      | Some i \<Rightarrow>
          (case findOne c i of
             None \<Rightarrow> (send_status 404 ''Post not found'', c)
           | Some p \<Rightarrow>
               (case downvote_branch i u p of
                  (msg, q, upd) \<Rightarrow> (send msg, updateOne q upd c))))"

text \<open>The operation \<open>castVote\<close> of the interface: the upvote endpoint casts \<open>Up\<close>, the
  downvote endpoint casts \<open>Down\<close>.\<close>

datatype vote_kind = Up | Down

fun kind_name :: "vote_kind \<Rightarrow> string" where
  "kind_name Up = ''up''"
| "kind_name Down = ''down''"

fun castVote ::
  "(string \<Rightarrow> oid option) \<Rightarrow> vote_kind \<Rightarrow> collection \<Rightarrow> string \<Rightarrow> js_value
     \<Rightarrow> response \<times> collection" where
  "castVote mk Up c ident u = post_upvote mk c ident u"
| "castVote mk Down c ident u = post_downvote mk c ident u"

text \<open>A request to one of the two endpoints, and a sequence of requests served one after
  the other, each completed before the next starts.\<close>

record request =
  req_kind :: vote_kind
  req_id :: string
  req_email :: js_value

fun run :: "(string \<Rightarrow> oid option) \<Rightarrow> request list \<Rightarrow> collection \<Rightarrow> collection" where
  "run mk [] c = c"
| "run mk (r # rs) c = run mk rs (snd (castVote mk (req_kind r) c (req_id r) (req_email r)))"

subsection \<open>The popularity listing\<close>

text \<open>
  \<^verbatim>\<open>aggregate([{ $addFields: { votesCount: { $subtract: ["$upVotes", "$downVotes"] } } },
  { $sort: { votesCount: -1 } }]).toArray()\<close>. The pipeline has no writing stage, so the
  collection it returns is the one it was given. The store does not fix the order of
  documents with equal keys; the model uses a stable sort, and the theorem about the
  listing does not depend on that choice.
\<close>

record listed =
  doc :: post
  votesCount :: int

definition addFields :: "post \<Rightarrow> listed" where
  "addFields d = \<lparr>doc = d, votesCount = upVotes d - downVotes d\<rparr>"

definition sort_by_popularity :: "collection \<Rightarrow> listed list \<times> collection" where
  "sort_by_popularity c = (sort_key (\<lambda>l. - votesCount l) (map addFields c), c)"

subsection \<open>Notions for stating the properties\<close>

text \<open>The array of vote records of a post, empty when the field is absent.\<close>

definition votes_list :: "post \<Rightarrow> vote list" where
  "votes_list p = (case votes p of None \<Rightarrow> [] | Some vs \<Rightarrow> vs)"

text \<open>The vote state of a voter on a post, as the handlers read it: no record, or the
  \<^verbatim>\<open>voteType\<close> of the record that \<^verbatim>\<open>find\<close> returns.\<close>

definition voteState :: "post \<Rightarrow> js_value \<Rightarrow> string option" where
  "voteState p u = map_option voteType (existingVote p u)"

text \<open>All records of a voter, and the number of records of a vote type.\<close>

definition records_of :: "post \<Rightarrow> js_value \<Rightarrow> vote list" where
  "records_of p u = filter (\<lambda>v. userEmail v = u) (votes_list p)"

definition count_votes :: "string \<Rightarrow> post \<Rightarrow> int" where
  "count_votes t p = int (length (filter (\<lambda>v. voteType v = t) (votes_list p)))"

fun branch_of :: "vote_kind \<Rightarrow> oid \<Rightarrow> js_value \<Rightarrow> post \<Rightarrow> branch" where
  "branch_of Up = upvote_branch"
| "branch_of Down = downvote_branch"

text \<open>
  The transition table of the specification (section 4.1), written from its six rows: the
  state of the voter before, the requested type, and then the state after with the changes
  of \<^verbatim>\<open>upVotes\<close> and \<^verbatim>\<open>downVotes\<close>.
\<close>

fun spec_table :: "vote_kind option \<Rightarrow> vote_kind \<Rightarrow> vote_kind option \<times> int \<times> int" where
  "spec_table None Up = (Some Up, 1, 0)"
| "spec_table None Down = (Some Down, 0, 1)"
| "spec_table (Some Up) Up = (None, - 1, 0)"
| "spec_table (Some Up) Down = (Some Down, - 1, 1)"
| "spec_table (Some Down) Down = (None, 0, - 1)"
| "spec_table (Some Down) Up = (Some Up, 1, - 1)"

text \<open>The status messages of the specification, one for each row of the table.\<close>

fun spec_message :: "vote_kind option \<Rightarrow> vote_kind \<Rightarrow> string" where
  "spec_message None Up = ''Upvote added''"
| "spec_message None Down = ''Downvote added''"
| "spec_message (Some Up) Up = ''Upvote removed''"
| "spec_message (Some Up) Down = ''Vote switched to downvote''"
| "spec_message (Some Down) Down = ''Downvote removed''"
| "spec_message (Some Down) Up = ''Vote switched to upvote''"

text \<open>
  An invariant of the ledger of one post: no two records with the same voter key, every
  record of type \<^verbatim>\<open>up\<close> or \<^verbatim>\<open>down\<close>, and each counter equal to the number of records
  of its type.
\<close>

definition ledger_ok :: "post \<Rightarrow> bool" where
  "ledger_ok p =
     (distinct (map userEmail (votes_list p)) \<and>
      list_all (\<lambda>v. voteType v = ''up'' \<or> voteType v = ''down'') (votes_list p) \<and>
      upVotes p = count_votes ''up'' p \<and> downVotes p = count_votes ''down'' p)"

text \<open>A voter key that is a string, as the e-mail address of a user is.\<close>

definition is_Str :: "js_value \<Rightarrow> bool" where
  "is_Str u = (case u of Str e \<Rightarrow> True | _ \<Rightarrow> False)"

subsection \<open>Two requests at the same time\<close>

text \<open>
  A handler touches the store twice, at its two \<^verbatim>\<open>await\<close>s: \<^verbatim>\<open>findOne\<close> and then one
  \<^verbatim>\<open>updateOne\<close>. The store executes each operation on a single document atomically, and
  between the two operations of one request the operations of another request can run. A
  request in progress is therefore in one of three states: received, with its branch
  picked from the post it read and its \<^verbatim>\<open>updateOne\<close> still to be issued, or answered.
\<close>

datatype proc = Start vote_kind string js_value | Pending branch | Done response

text \<open>One step of a request: received requests read (and answer at once when the
  identifier is malformed or unknown), pending requests write and answer.\<close>

fun proc_step :: "(string \<Rightarrow> oid option) \<Rightarrow> proc \<Rightarrow> collection \<Rightarrow> proc \<times> collection" where
  "proc_step mk (Start k ident u) c =
     (case mk ident of
        None \<Rightarrow> (Done internal_error, c)
      | Some i \<Rightarrow>
          (case findOne c i of
             None \<Rightarrow> (Done (send_status 404 ''Post not found''), c)
           | Some p \<Rightarrow> (Pending (branch_of k i u p), c)))"
| "proc_step mk (Pending (msg, q, upd)) c = (Done (send msg), updateOne q upd c)"
| "proc_step mk (Done r) c = (Done r, c)"

text \<open>Two requests in progress on one collection, run under a schedule: \<open>True\<close> lets the
  first request take its next step, \<open>False\<close> the second.\<close>

fun interleave ::
  "(string \<Rightarrow> oid option) \<Rightarrow> bool list \<Rightarrow> proc \<times> proc \<times> collection \<Rightarrow> proc \<times> proc \<times> collection" where
  "interleave mk [] s = s"
| "interleave mk (b # bs) (pa, pb, c) =
     (if b then (case proc_step mk pa c of (pa', c') \<Rightarrow> interleave mk bs (pa', pb, c'))
      else (case proc_step mk pb c of (pb', c') \<Rightarrow> interleave mk bs (pa, pb', c')))"

subsection \<open>Concrete data for the examples\<close>

text \<open>
  The constructor \<^verbatim>\<open>new ObjectId(id)\<close> of the current driver on a string: it accepts
  exactly the strings of 24 hexadecimal digits and throws on every other string. Two
  strings that differ only in the case of their digits give the same identifier. (Older
  drivers also accept any string of 12 characters; the general theorems therefore hold
  for every constructor \<open>mk\<close>.)
\<close>

definition hex_digit :: "char \<Rightarrow> bool" where
  "hex_digit ch = (ch \<in> set ''0123456789abcdefABCDEF'')"

definition lower_hex :: "char \<Rightarrow> char" where
  "lower_hex ch =
     (if ch = CHR ''A'' then CHR ''a'' else if ch = CHR ''B'' then CHR ''b''
      else if ch = CHR ''C'' then CHR ''c'' else if ch = CHR ''D'' then CHR ''d''
      else if ch = CHR ''E'' then CHR ''e'' else if ch = CHR ''F'' then CHR ''f'' else ch)"

definition ObjectId :: "string \<Rightarrow> oid option" where
  "ObjectId s = (if length s = 24 \<and> list_all hex_digit s then Some (map lower_hex s) else None)"

definition id1 :: string where
  "id1 = ''65a1b2c3d4e5f60718293a4b''"

definition id2 :: string where
  "id2 = ''0123456789ABCDEF01234567''"

definition fresh_post :: post where
  "fresh_post = \<lparr>post_id = id1, votes = None, upVotes = 0, downVotes = 0,
                  payload = [(''title'', JStr ''Hello'')]\<rparr>"

definition upvoted_post :: post where
  "upvoted_post = \<lparr>post_id = id1,
                    votes = Some [\<lparr>userEmail = Str ''a@x.org'', voteType = ''up''\<rparr>],
                    upVotes = 1, downVotes = 0, payload = []\<rparr>"

section \<open>Properties\<close>

subsection \<open>Auxiliary facts\<close>

lemma field_matches_Str [simp]: "field_matches (Str e) f = (f = Str e)"
  by (simp add: field_matches_def)

lemma field_matches_self [simp]: "field_matches u u"
  by (cases u) (simp_all add: field_matches_def)

lemma find_append_single:
  "find P (xs @ [x]) = (case find P xs of Some y \<Rightarrow> Some y | None \<Rightarrow> if P x then Some x else None)"
  by (induction xs) auto

lemma find_filter_not: "find P (filter (\<lambda>x. \<not> P x) xs) = None"
  by (induction xs) auto

lemma find_set_first:
  "find (\<lambda>v. userEmail v = Str e) (set_first (Str e) t vs)
     = map_option (\<lambda>v. v\<lparr>voteType := t\<rparr>) (find (\<lambda>v. userEmail v = Str e) vs)"
  by (induction vs) auto

lemma findOne_updateOne_same:
  "findOne c i = Some p \<Longrightarrow> q p \<Longrightarrow> (\<And>d. q d \<Longrightarrow> post_id d = i) \<Longrightarrow> post_id (f p) = i
     \<Longrightarrow> findOne (updateOne q f c) i = Some (f p)"
  by (induction c) (auto simp: findOne_def split: if_splits)

lemma findOne_updateOne_other:
  "(\<And>d. q d \<Longrightarrow> post_id d = i) \<Longrightarrow> (\<And>d. post_id (f d) = post_id d) \<Longrightarrow> j \<noteq> i
     \<Longrightarrow> findOne (updateOne q f c) j = findOne c j"
  by (induction c) (auto simp: findOne_def split: if_splits)

lemma post_id_inc [simp]: "post_id (inc a b d) = post_id d" by (simp add: inc_def)
lemma post_id_push [simp]: "post_id (push_vote u t d) = post_id d" by (simp add: push_vote_def)
lemma post_id_pull [simp]: "post_id (pull_votes u d) = post_id d" by (simp add: pull_votes_def)
lemma post_id_set [simp]: "post_id (set_voteType u t d) = post_id d" by (simp add: set_voteType_def)

lemma find_Some_mem: "find P xs = Some x \<Longrightarrow> P x \<and> x \<in> set xs"
  by (induction xs) (auto split: if_splits)

lemma existingVote_matches:
  "existingVote p u = Some v \<Longrightarrow> by_id_and_voter (post_id p) u p"
proof -
  assume ev: "existingVote p u = Some v"
  then obtain vs where vs: "votes p = Some vs" and f: "find (\<lambda>v. userEmail v = u) vs = Some v"
    by (auto simp: existingVote_def split: option.splits)
  from find_Some_mem[OF f] have "userEmail v = u" "v \<in> set vs" by auto
  then have "\<exists>w\<in>set vs. field_matches u (userEmail w)"
    using field_matches_self by blast
  with vs show ?thesis
    by (simp add: by_id_and_voter_def list_ex_iff)
qed

lemma branch_cases:
  assumes "branch_of k i u p = (msg, q, f)"
  shows "(\<forall>d. q d \<longrightarrow> post_id d = i) \<and> (\<forall>d. post_id (f d) = post_id d)
         \<and> (post_id p = i \<longrightarrow> q p)"
proof (cases "existingVote p u")
  case None
  with assms show ?thesis
    by (cases k) (auto simp: upvote_branch_def downvote_branch_def by_id_def)
next
  case (Some v)
  with assms existingVote_matches[OF Some] show ?thesis
    by (cases k)
      (auto simp: upvote_branch_def downvote_branch_def by_id_def by_id_and_voter_def
        split: if_splits)
qed

lemma findOne_post_id: "findOne c i = Some p \<Longrightarrow> post_id p = i"
  by (auto simp: findOne_def dest: find_Some_mem)

lemma castVote_found:
  assumes "mk ident = Some i" "findOne c i = Some p" "branch_of k i u p = (msg, q, f)"
  shows "castVote mk k c ident u = (send msg, updateOne q f c)"
    and "findOne (updateOne q f c) i = Some (f p)"
    and "j \<noteq> i \<Longrightarrow> findOne (updateOne q f c) j = findOne c j"
proof -
  show "castVote mk k c ident u = (send msg, updateOne q f c)"
    using assms by (cases k) (simp_all add: post_upvote_def post_downvote_def)
  note bc = branch_cases[OF assms(3)]
  have pid: "post_id p = i" using assms(2) by (rule findOne_post_id)
  show "findOne (updateOne q f c) i = Some (f p)"
    using bc pid by (intro findOne_updateOne_same[OF assms(2)]) auto
  show "j \<noteq> i \<Longrightarrow> findOne (updateOne q f c) j = findOne c j"
    using bc by (intro findOne_updateOne_other) auto
qed


lemma counters_inc [simp]:
  "upVotes (inc a b d) = upVotes d + a" "downVotes (inc a b d) = downVotes d + b"
  "votes (inc a b d) = votes d" "payload (inc a b d) = payload d"
  by (simp_all add: inc_def)

lemma counters_push [simp]:
  "upVotes (push_vote u t d) = upVotes d" "downVotes (push_vote u t d) = downVotes d"
  "payload (push_vote u t d) = payload d"
  by (simp_all add: push_vote_def)

lemma counters_pull [simp]:
  "upVotes (pull_votes u d) = upVotes d" "downVotes (pull_votes u d) = downVotes d"
  "payload (pull_votes u d) = payload d"
  by (simp_all add: pull_votes_def)

lemma counters_set [simp]:
  "upVotes (set_voteType u t d) = upVotes d" "downVotes (set_voteType u t d) = downVotes d"
  "payload (set_voteType u t d) = payload d"
  by (simp_all add: set_voteType_def)

lemma existingVote_inc [simp]: "existingVote (inc a b d) u = existingVote d u"
  by (simp add: existingVote_def)

lemma existingVote_push:
  "existingVote (push_vote (Str e) t p) (Str e)
     = (case existingVote p (Str e) of Some y \<Rightarrow> Some y
        | None \<Rightarrow> Some \<lparr>userEmail = Str e, voteType = t\<rparr>)"
  by (simp add: existingVote_def push_vote_def find_append_single split: option.splits)

lemma existingVote_pull: "existingVote (pull_votes (Str e) p) (Str e) = None"
proof -
  have "find (\<lambda>v. userEmail v = Str e) (filter (\<lambda>v. userEmail v \<noteq> Str e) vs) = None"
    for vs :: "vote list"
    using find_filter_not[of "\<lambda>v. userEmail v = Str e" vs] by simp
  then show ?thesis
    by (simp add: existingVote_def pull_votes_def split: option.splits)
qed

lemma existingVote_set:
  "existingVote (set_voteType (Str e) t p) (Str e)
     = map_option (\<lambda>v. v\<lparr>voteType := t\<rparr>) (existingVote p (Str e))"
  by (simp add: existingVote_def set_voteType_def find_set_first split: option.splits)

lemma branch_effect:
  assumes "branch_of k i (Str e) p = (msg, q, f)"
    and "voteState p (Str e) = map_option kind_name S"
  shows "(voteState (f p) (Str e), upVotes (f p), downVotes (f p))
         = (case spec_table S k of
              (S', du, dd) \<Rightarrow> (map_option kind_name S', upVotes p + du, downVotes p + dd))"
proof (cases S)
  case None
  with assms(2) have "existingVote p (Str e) = None" by (simp add: voteState_def)
  with assms(1) None show ?thesis
    by (cases k) (auto simp: upvote_branch_def downvote_branch_def voteState_def existingVote_push)
next
  case (Some s)
  with assms(2) obtain v where v: "existingVote p (Str e) = Some v" "voteType v = kind_name s"
    by (auto simp: voteState_def)
  with assms(1) Some show ?thesis
    by (cases k; cases s)
      (auto simp: upvote_branch_def downvote_branch_def voteState_def
         existingVote_pull existingVote_set)
qed

subsection \<open>Sequences of requests\<close>

lemma castVote_findOne_cases:
  assumes "findOne c i = Some p"
  shows "findOne (snd (castVote mk k c idt u)) i = Some p \<or>
         (\<exists>msg q f. mk idt = Some i \<and> branch_of k i u p = (msg, q, f) \<and>
            findOne (snd (castVote mk k c idt u)) i = Some (f p))"
proof (cases "mk idt")
  case None
  then show ?thesis using assms
    by (cases k) (simp_all add: post_upvote_def post_downvote_def)
next
  case (Some j)
  show ?thesis
  proof (cases "findOne c j")
    case None
    with Some show ?thesis using assms
      by (cases k) (simp_all add: post_upvote_def post_downvote_def)
  next
    case (Some pj)
    obtain msg q f where b: "branch_of k j u pj = (msg, q, f)"
      by (cases "branch_of k j u pj") auto
    have cv: "castVote mk k c idt u = (send msg, updateOne q f c)"
      using \<open>mk idt = Some j\<close> Some b by (rule castVote_found(1))
    show ?thesis
    proof (cases "j = i")
      case True
      with Some assms have "pj = p" by simp
      moreover have "findOne (updateOne q f c) j = Some (f pj)"
        using \<open>mk idt = Some j\<close> Some b by (rule castVote_found(2))
      ultimately show ?thesis using cv b True \<open>mk idt = Some j\<close> by auto
    next
      case False
      have "findOne (updateOne q f c) i = findOne c i"
        using \<open>mk idt = Some j\<close> Some b False[symmetric] castVote_found(3) by blast
      with cv assms show ?thesis by simp
    qed
  qed
qed

lemma run_invariant:
  assumes step: "\<And>k u p msg q f. A u \<Longrightarrow> I p \<Longrightarrow> branch_of k i u p = (msg, q, f) \<Longrightarrow> I (f p)"
    and "findOne c i = Some p" and "I p" and "list_all (\<lambda>r. A (req_email r)) rs"
  shows "\<exists>p'. findOne (run mk rs c) i = Some p' \<and> I p'"
  using assms(2-)
proof (induction rs arbitrary: c p)
  case Nil
  then show ?case by simp
next
  case (Cons r rs)
  let ?c' = "snd (castVote mk (req_kind r) c (req_id r) (req_email r))"
  from Cons.prems have A: "A (req_email r)" and rest: "list_all (\<lambda>r. A (req_email r)) rs" by simp_all
  from castVote_findOne_cases[OF Cons.prems(1), of mk "req_kind r" "req_id r" "req_email r"]
  obtain p1 where "findOne ?c' i = Some p1" "I p1"
    using step[OF A Cons.prems(2)] Cons.prems(2) by blast
  from Cons.IH[OF this rest] show ?case by simp
qed


subsection \<open>The ledger invariant\<close>

lemma find_None_filter_id:
  "find (\<lambda>v. userEmail v = u) vs = None \<Longrightarrow> filter (\<lambda>v. userEmail v \<noteq> u) vs = vs"
  by (induction vs) (auto split: if_splits)

lemma find_None_notin:
  "find (\<lambda>v. userEmail v = u) vs = None \<Longrightarrow> u \<notin> set (map userEmail vs)"
  by (induction vs) (auto split: if_splits)

lemma notin_filter_id:
  "u \<notin> set (map userEmail vs) \<Longrightarrow> filter (\<lambda>v. userEmail v \<noteq> u) vs = vs"
  by (induction vs) auto

lemma pull_count:
  fixes vs :: "vote list"
  assumes "distinct (map userEmail vs)" and "find (\<lambda>v. userEmail v = u) vs = Some v"
  shows "int (length (filter P (filter (\<lambda>w. userEmail w \<noteq> u) vs)))
         = int (length (filter P vs)) - (if P v then 1 else 0)"
  using assms
proof (induction vs)
  case Nil
  then show ?case by simp
next
  case (Cons w ws)
  show ?case
  proof (cases "userEmail w = u")
    case True
    with Cons.prems have "v = w" "u \<notin> set (map userEmail ws)" by auto
    then show ?thesis using True by (simp add: notin_filter_id)
  next
    case False
    with Cons show ?thesis by auto
  qed
qed

lemma set_first_count:
  fixes vs :: "vote list"
  assumes "find (\<lambda>v. userEmail v = Str e) vs = Some v"
  shows "int (length (filter (\<lambda>w. voteType w = t') (set_first (Str e) t vs)))
         = int (length (filter (\<lambda>w. voteType w = t') vs))
           + (if t = t' then 1 else 0) - (if voteType v = t' then 1 else 0)"
  using assms by (induction vs) (auto split: if_splits)

lemma map_userEmail_set_first [simp]: "map userEmail (set_first u t vs) = map userEmail vs"
  by (induction vs) auto

lemma list_all_set_first:
  "list_all P vs \<Longrightarrow> (\<And>v. P v \<Longrightarrow> P (v\<lparr>voteType := t\<rparr>)) \<Longrightarrow> list_all P (set_first u t vs)"
  by (induction vs) auto

lemma votes_list_inc [simp]: "votes_list (inc a b d) = votes_list d"
  by (simp add: votes_list_def)

lemma votes_list_push [simp]:
  "votes_list (push_vote u t d) = votes_list d @ [\<lparr>userEmail = bson u, voteType = t\<rparr>]"
  by (simp add: votes_list_def push_vote_def)

lemma votes_list_pull [simp]:
  "votes_list (pull_votes u d) = filter (\<lambda>v. \<not> field_matches u (userEmail v)) (votes_list d)"
  by (simp add: votes_list_def pull_votes_def split: option.splits)

lemma votes_list_set [simp]:
  "votes_list (set_voteType u t d) = set_first u t (votes_list d)"
  by (simp add: votes_list_def set_voteType_def split: option.splits)

lemma existingVote_votes_list:
  "existingVote p u = find (\<lambda>v. userEmail v = u) (votes_list p)"
  by (simp add: existingVote_def votes_list_def split: option.splits)

lemma ledger_ok_add:
  assumes "existingVote p (Str e) = None" and "ledger_ok p" and "t = ''up'' \<or> t = ''down''"
  shows "ledger_ok (inc (if t = ''up'' then 1 else 0) (if t = ''up'' then 0 else 1)
                      (push_vote (Str e) t p))"
proof -
  from assms(1) have "Str e \<notin> set (map userEmail (votes_list p))"
    unfolding existingVote_votes_list by (rule find_None_notin)
  with assms(2,3) show ?thesis
    by (auto simp: ledger_ok_def count_votes_def)
qed

lemma ledger_ok_remove:
  assumes "existingVote p (Str e) = Some v" and "ledger_ok p"
  shows "ledger_ok (inc (if voteType v = ''up'' then - 1 else 0)
                      (if voteType v = ''up'' then 0 else - 1) (pull_votes (Str e) p))"
proof -
  from assms(1) have f: "find (\<lambda>v. userEmail v = Str e) (votes_list p) = Some v"
    by (simp add: existingVote_votes_list)
  from assms(2) have d: "distinct (map userEmail (votes_list p))"
    and ty: "list_all (\<lambda>v. voteType v = ''up'' \<or> voteType v = ''down'') (votes_list p)"
    and up: "upVotes p = count_votes ''up'' p" and dn: "downVotes p = count_votes ''down'' p"
    by (simp_all add: ledger_ok_def)
  from find_Some_mem[OF f] ty have vty: "voteType v = ''up'' \<or> voteType v = ''down''"
    by (auto simp: list_all_iff)
  let ?vs' = "filter (\<lambda>w. userEmail w \<noteq> Str e) (votes_list p)"
  have 1: "distinct (map userEmail ?vs')"
    using d by (rule distinct_map_filter)
  have 2: "list_all (\<lambda>v. voteType v = ''up'' \<or> voteType v = ''down'') ?vs'"
    using ty by (auto simp: list_all_iff)
  have 3: "int (length (filter (\<lambda>w. voteType w = ''up'') ?vs'))
           = count_votes ''up'' p - (if voteType v = ''up'' then 1 else 0)"
    unfolding count_votes_def by (rule pull_count[OF d f])
  have 4: "int (length (filter (\<lambda>w. voteType w = ''down'') ?vs'))
           = count_votes ''down'' p - (if voteType v = ''down'' then 1 else 0)"
    unfolding count_votes_def by (rule pull_count[OF d f])
  have 5: "count_votes ''up'' (pull_votes (Str e) p)
           = count_votes ''up'' p - (if voteType v = ''up'' then 1 else 0)"
    using 3 by (simp add: count_votes_def)
  have 6: "count_votes ''down'' (pull_votes (Str e) p)
           = count_votes ''down'' p - (if voteType v = ''down'' then 1 else 0)"
    using 4 by (simp add: count_votes_def)
  have 7: "count_votes t (inc a b d) = count_votes t d" for t a b d
    by (simp add: count_votes_def)
  show ?thesis
    unfolding ledger_ok_def using 1 2 up dn vty by (auto simp: 5 6 7)
qed

lemma ledger_ok_switch:
  assumes "existingVote p (Str e) = Some v" and "ledger_ok p"
    and "t = ''up'' \<or> t = ''down''" and "voteType v \<noteq> t"
  shows "ledger_ok (inc (if t = ''up'' then 1 else - 1) (if t = ''up'' then - 1 else 1)
                      (set_voteType (Str e) t p))"
proof -
  from assms(1) have f: "find (\<lambda>v. userEmail v = Str e) (votes_list p) = Some v"
    by (simp add: existingVote_votes_list)
  from assms(2) have d: "distinct (map userEmail (votes_list p))"
    and ty: "list_all (\<lambda>v. voteType v = ''up'' \<or> voteType v = ''down'') (votes_list p)"
    and up: "upVotes p = count_votes ''up'' p" and dn: "downVotes p = count_votes ''down'' p"
    by (simp_all add: ledger_ok_def)
  from find_Some_mem[OF f] ty have vty: "voteType v = ''up'' \<or> voteType v = ''down''"
    by (auto simp: list_all_iff)
  have 2: "list_all (\<lambda>v. voteType v = ''up'' \<or> voteType v = ''down'')
             (set_first (Str e) t (votes_list p))"
    using ty assms(3) by (intro list_all_set_first) auto
  have 5: "count_votes t' (set_voteType (Str e) t p)
           = count_votes t' p + (if t = t' then 1 else 0) - (if voteType v = t' then 1 else 0)"
    for t'
    using set_first_count[OF f, of t' t] by (simp add: count_votes_def)
  have 7: "count_votes t (inc a b d) = count_votes t d" for t a b d
    by (simp add: count_votes_def)
  show ?thesis
    unfolding ledger_ok_def using d 2 up dn vty assms(3,4) by (auto simp: 5 7)
qed

lemma ledger_ok_step:
  assumes b: "branch_of k i (Str e) p = (msg, q, f)" and ok: "ledger_ok p"
  shows "ledger_ok (f p)"
proof (cases "existingVote p (Str e)")
  case None
  from ledger_ok_add[OF None ok, of "kind_name k"] b None show ?thesis
    by (cases k) (auto simp: upvote_branch_def downvote_branch_def)
next
  case (Some v)
  from ok have ty: "list_all (\<lambda>v. voteType v = ''up'' \<or> voteType v = ''down'') (votes_list p)"
    by (simp add: ledger_ok_def)
  from Some have "find (\<lambda>v. userEmail v = Str e) (votes_list p) = Some v"
    by (simp add: existingVote_votes_list)
  from find_Some_mem[OF this] ty have vty: "voteType v = ''up'' \<or> voteType v = ''down''"
    by (auto simp: list_all_iff)
  show ?thesis
  proof (cases "voteType v = kind_name k")
    case True
    from ledger_ok_remove[OF Some ok] b Some True show ?thesis
      by (cases k) (auto simp: upvote_branch_def downvote_branch_def)
  next
    case False
    from ledger_ok_switch[OF Some ok _ False] b Some False vty show ?thesis
      by (cases k) (auto simp: upvote_branch_def downvote_branch_def)
  qed
qed

lemma count_votes_nonneg: "0 \<le> count_votes t p"
  by (simp add: count_votes_def)

lemma ledger_ok_fresh:
  "votes p = None \<or> votes p = Some [] \<Longrightarrow> upVotes p = 0 \<Longrightarrow> downVotes p = 0 \<Longrightarrow> ledger_ok p"
  by (auto simp: ledger_ok_def votes_list_def count_votes_def)

subsection \<open>Records per voter\<close>

lemma find_filter_case:
  "find P xs = (case filter P xs of [] \<Rightarrow> None | x # _ \<Rightarrow> Some x)"
  by (induction xs) auto

lemma length_filter_filter_le:
  "length (filter P (filter Q xs)) \<le> length (filter P xs)"
  by (induction xs) auto

lemma length_filter_set_first:
  "length (filter (\<lambda>v. userEmail v = w) (set_first u t vs))
   = length (filter (\<lambda>v. userEmail v = w) vs)"
  by (induction vs) auto

lemma filter_set_first_Str:
  "filter (\<lambda>v. userEmail v = Str e) (set_first (Str e) t vs)
   = (case filter (\<lambda>v. userEmail v = Str e) vs of [] \<Rightarrow> []
      | x # xs \<Rightarrow> x\<lparr>voteType := t\<rparr> # xs)"
  by (induction vs) auto

lemma bson_Str_iff [simp]: "bson u = Str e \<longleftrightarrow> u = Str e"
  by (cases u) auto

lemma records_step_le:
  assumes b: "branch_of k i u p = (msg, q, f)"
    and le: "length (records_of p (Str e)) \<le> 1"
  shows "length (records_of (f p) (Str e)) \<le> 1"
proof (cases "existingVote p u")
  case None
  show ?thesis
  proof (cases "u = Str e")
    case True
    with None have "records_of p (Str e) = []"
      by (simp add: existingVote_votes_list records_of_def find_filter_case split: list.splits)
    with b None True show ?thesis
      by (cases k) (auto simp: upvote_branch_def downvote_branch_def records_of_def)
  next
    case False
    with b None le show ?thesis
      by (cases k) (auto simp: upvote_branch_def downvote_branch_def records_of_def)
  qed
next
  case (Some v)
  have pull: "length (records_of (pull_votes u p) (Str e)) \<le> 1"
  proof -
    have "length (filter (\<lambda>v. userEmail v = Str e)
            (filter (\<lambda>v. \<not> field_matches u (userEmail v)) (votes_list p)))
          \<le> length (filter (\<lambda>v. userEmail v = Str e) (votes_list p))"
      by (rule length_filter_filter_le)
    with le show ?thesis by (simp add: records_of_def)
  qed
  have sett: "length (records_of (set_voteType u t p) (Str e)) \<le> 1" for t
    using le by (simp add: records_of_def length_filter_set_first)
  have inc: "records_of (inc a b d) w = records_of d w" for a b d w
    by (simp add: records_of_def)
  from b Some pull sett show ?thesis
    by (cases k) (auto simp: upvote_branch_def downvote_branch_def inc split: if_splits)
qed


subsection \<open>Single requests\<close>

lemma records_of_None:
  "existingVote p u = None \<Longrightarrow> records_of p u = []"
  by (simp add: existingVote_votes_list records_of_def find_filter_case split: list.splits)

lemma records_of_Some:
  "existingVote p u = Some v \<Longrightarrow> length (records_of p u) \<le> 1 \<Longrightarrow> records_of p u = [v]"
  by (auto simp: existingVote_votes_list records_of_def find_filter_case split: list.splits)

lemma records_of_inc [simp]: "records_of (inc a b d) w = records_of d w"
  by (simp add: records_of_def)

lemma records_of_push_Str:
  "records_of (push_vote (Str e) t p) (Str e)
     = records_of p (Str e) @ [\<lparr>userEmail = Str e, voteType = t\<rparr>]"
  by (simp add: records_of_def)

lemma records_of_pull_Str: "records_of (pull_votes (Str e) p) (Str e) = []"
  by (simp add: records_of_def)

lemma records_of_set_Str:
  "records_of (set_voteType (Str e) t p) (Str e)
     = (case records_of p (Str e) of [] \<Rightarrow> [] | x # xs \<Rightarrow> x\<lparr>voteType := t\<rparr> # xs)"
  by (simp add: records_of_def filter_set_first_Str)

lemma records_lifecycle:
  assumes b: "branch_of k i (Str e) p = (msg, q, f)"
    and le: "length (records_of p (Str e)) \<le> 1"
  shows "records_of (f p) (Str e)
         = (case existingVote p (Str e) of
              None \<Rightarrow> [\<lparr>userEmail = Str e, voteType = kind_name k\<rparr>]
            | Some v \<Rightarrow> if voteType v = kind_name k then []
                        else [v\<lparr>voteType := kind_name k\<rparr>])"
proof (cases "existingVote p (Str e)")
  case None
  with b records_of_None[OF None] show ?thesis
    by (cases k) (auto simp: upvote_branch_def downvote_branch_def records_of_push_Str)
next
  case (Some v)
  with b records_of_Some[OF Some le] show ?thesis
    by (cases k)
      (auto simp: upvote_branch_def downvote_branch_def records_of_pull_Str records_of_set_Str)
qed

lemma castVote_row:
  assumes "mk ident = Some i" and "findOne c i = Some p"
    and "voteState p (Str e) = map_option kind_name S"
  shows "fst (castVote mk k c ident (Str e)) = send (spec_message S k) \<and>
         map_option (\<lambda>p'. (voteState p' (Str e), upVotes p', downVotes p'))
           (findOne (snd (castVote mk k c ident (Str e))) i)
         = Some (case spec_table S k of
                   (S', du, dd) \<Rightarrow> (map_option kind_name S', upVotes p + du, downVotes p + dd))"
proof -
  obtain msg q f where b: "branch_of k i (Str e) p = (msg, q, f)"
    by (cases "branch_of k i (Str e) p") auto
  have cv: "castVote mk k c ident (Str e) = (send msg, updateOne q f c)"
    using assms(1,2) b by (rule castVote_found(1))
  have fo: "findOne (updateOne q f c) i = Some (f p)"
    using assms(1,2) b by (rule castVote_found(2))
  have "msg = spec_message S k"
  proof (cases S)
    case None
    with assms(3) have "existingVote p (Str e) = None" by (simp add: voteState_def)
    with b None show ?thesis
      by (cases k) (auto simp: upvote_branch_def downvote_branch_def)
  next
    case (Some s)
    with assms(3) obtain v where "existingVote p (Str e) = Some v" "voteType v = kind_name s"
      by (auto simp: voteState_def)
    with b Some show ?thesis
      by (cases k; cases s) (auto simp: upvote_branch_def downvote_branch_def)
  qed
  with cv fo branch_effect[OF b assms(3)] show ?thesis by simp
qed

lemma missing_email_counter:
  assumes "branch_of k i Undefined p = (msg, q, f)"
  shows "case k of Up \<Rightarrow> \<bar>upVotes (f p) - upVotes p\<bar> = 1
         | Down \<Rightarrow> \<bar>downVotes (f p) - downVotes p\<bar> = 1"
  using assms
  by (cases k; cases "existingVote p Undefined")
    (auto simp: upvote_branch_def downvote_branch_def split: if_splits)

lemma map_updateOne_field:
  assumes "\<And>d. g (upd d) = g d"
  shows "map g (updateOne q upd c) = map g c"
  using assms by (induction c) auto

lemma branch_keeps_payload:
  assumes "branch_of k i u p = (msg, q, f)"
  shows "payload (f d) = payload d"
  using assms
  by (cases k; cases "existingVote p u")
    (auto simp: upvote_branch_def downvote_branch_def split: if_splits)

lemma castVote_keeps_payload: "map payload (snd (castVote mk k c ident u)) = map payload c"
proof (cases "mk ident")
  case None
  then show ?thesis by (cases k) (simp_all add: post_upvote_def post_downvote_def)
next
  case (Some i)
  show ?thesis
  proof (cases "findOne c i")
    case None
    with Some show ?thesis by (cases k) (simp_all add: post_upvote_def post_downvote_def)
  next
    case (Some p)
    obtain msg q f where b: "branch_of k i u p = (msg, q, f)"
      by (cases "branch_of k i u p") auto
    have "castVote mk k c ident u = (send msg, updateOne q f c)"
      using \<open>mk ident = Some i\<close> Some b by (rule castVote_found(1))
    then show ?thesis
      using branch_keeps_payload[OF b] by (simp add: map_updateOne_field)
  qed
qed

subsection \<open>Interleaved requests\<close>

text \<open>Run alone, the two steps of a request are the handler.\<close>

lemma castVote_as_steps:
  "castVote mk k c ident u
   = (case proc_step mk (Start k ident u) c of
        (p1, c1) \<Rightarrow> (case proc_step mk p1 c1 of
           (Done r, c2) \<Rightarrow> (r, c2) | (_, c2) \<Rightarrow> (internal_error, c2)))"
  by (cases k)
    (auto simp: post_upvote_def post_downvote_def split: option.splits prod.splits)

lemma branch_of_cong:
  "existingVote p' u = existingVote p u \<Longrightarrow> branch_of k i u p' = branch_of k i u p"
  by (cases k) (simp_all add: upvote_branch_def downvote_branch_def)

lemma find_other_filter:
  "ea \<noteq> eb \<Longrightarrow> find (\<lambda>v. userEmail v = Str eb) (filter (\<lambda>v. userEmail v \<noteq> Str ea) vs)
     = find (\<lambda>v. userEmail v = Str eb) vs"
  by (induction vs) auto

lemma find_other_set_first:
  "ea \<noteq> eb \<Longrightarrow> find (\<lambda>v. userEmail v = Str eb) (set_first (Str ea) t vs)
     = find (\<lambda>v. userEmail v = Str eb) vs"
  by (induction vs) auto

lemma branch_other_voter:
  assumes "branch_of k i (Str ea) p = (msg, q, f)" and "ea \<noteq> eb"
  shows "existingVote (f x) (Str eb) = existingVote x (Str eb)"
  using assms
  by (cases k; cases "existingVote p (Str ea)")
    (auto simp: upvote_branch_def downvote_branch_def existingVote_votes_list
       find_other_filter find_other_set_first find_append_single
       split: if_splits option.splits)

lemma branch_delta:
  assumes "branch_of k i u p = (msg, q, f)"
  shows "upVotes (f x) = upVotes x + (upVotes (f p) - upVotes p) \<and>
         downVotes (f x) = downVotes x + (downVotes (f p) - downVotes p)"
  using assms
  by (cases k; cases "existingVote p u")
    (auto simp: upvote_branch_def downvote_branch_def split: if_splits)

lemma write_found:
  assumes "branch_of k i u x = (msg, q, f)" and "findOne c i = Some x"
  shows "findOne (updateOne q f c) i = Some (f x)"
proof -
  note bc = branch_cases[OF assms(1)]
  have "post_id x = i" using assms(2) by (rule findOne_post_id)
  with bc show ?thesis by (intro findOne_updateOne_same[OF assms(2)]) auto
qed

lemma shuffles_two_two:
  "sched \<in> shuffles [True, True] [False, False] \<Longrightarrow>
   sched = [True, True, False, False] \<or> sched = [True, False, True, False] \<or>
   sched = [True, False, False, True] \<or> sched = [False, True, True, False] \<or>
   sched = [False, True, False, True] \<or> sched = [False, False, True, True]"
  by (auto simp: shuffles.simps)

subsection \<open>Evaluation of the examples\<close>

lemmas handler_defs =
  post_upvote_def post_downvote_def upvote_branch_def downvote_branch_def existingVote_def
  findOne_def by_id_def by_id_and_voter_def inc_def push_vote_def pull_votes_def
  set_voteType_def field_matches_def send_def send_status_def internal_error_def
  voteState_def

lemma ObjectId_id2: "ObjectId id2 = Some ''0123456789abcdef01234567''"
  by (simp add: ObjectId_def id2_def hex_digit_def lower_hex_def)

lemma ObjectId_malformed: "ObjectId ''not-an-id'' = None"
  by (simp add: ObjectId_def)

lemma ObjectId_id1: "ObjectId id1 = Some id1"
  by (simp add: ObjectId_def id1_def hex_digit_def lower_hex_def)

lemma findOne_fresh: "findOne [fresh_post] id1 = Some fresh_post"
  by (simp add: findOne_def fresh_post_def)

lemma findOne_upvoted: "findOne [upvoted_post] id1 = Some upvoted_post"
  by (simp add: findOne_def upvoted_post_def)

section \<open>The claims\<close>

text \<open>
  C1. For a post that exists, a voter with a string key whose vote state is \<open>none\<close>,
  \<open>up\<close> or \<open>down\<close>, and a requested type, \<open>castVote\<close> answers 200 and the post
  afterwards has the vote state and the counters that the row of the table of section
  4.1 for that state and that request gives. The result is a function of the state and the
  request, so no other transition occurs.
\<close>

theorem castVote_transition_table:
  assumes "mk ident = Some i" and "findOne c i = Some p"
    and "voteState p (Str e) = map_option kind_name S"
    and "spec_table S k = (S', du, dd)"
  shows "status (fst (castVote mk k c ident (Str e))) = 200 \<and>
         map_option (\<lambda>p'. (voteState p' (Str e), upVotes p', downVotes p'))
           (findOne (snd (castVote mk k c ident (Str e))) i)
         = Some (map_option kind_name S', upVotes p + du, downVotes p + dd)"
proof -
  obtain msg q f where b: "branch_of k i (Str e) p = (msg, q, f)"
    by (cases "branch_of k i (Str e) p") auto
  have "castVote mk k c ident (Str e) = (send msg, updateOne q f c)"
    using assms(1,2) b by (rule castVote_found(1))
  moreover have "findOne (updateOne q f c) i = Some (f p)"
    using assms(1,2) b by (rule castVote_found(2))
  ultimately show ?thesis
    using branch_effect[OF b assms(3)] assms(4) by (simp add: send_def send_status_def)
qed

theorem castVote_transition_table_witness:
  "status (fst (castVote ObjectId Up [upvoted_post] id1 (Str ''a@x.org''))) = 200 \<and>
   map_option (\<lambda>p'. (voteState p' (Str ''a@x.org''), upVotes p', downVotes p'))
     (findOne (snd (castVote ObjectId Up [upvoted_post] id1 (Str ''a@x.org''))) id1)
   = Some (None, 0, 0)"
proof -
  have st: "voteState upvoted_post (Str ''a@x.org'') = map_option kind_name (Some Up)"
    by (simp add: voteState_def existingVote_def upvoted_post_def)
  have tb: "spec_table (Some Up) Up = (None, - 1, 0)" by simp
  from castVote_transition_table[where mk = ObjectId and ident = id1,
      OF ObjectId_id1 findOne_upvoted st tb]
  show ?thesis by (simp add: upvoted_post_def)
qed

text \<open>
  C2, counterexample. The claim as stated fails: requests without a string voter key are
  completed like any other. On a post without votes, two upvote requests without
  \<^verbatim>\<open>userEmail\<close> each answer 200 and append a record with the key \<^verbatim>\<open>null\<close>; a third
  upvote request with \<^verbatim>\<open>userEmail\<close> \<^verbatim>\<open>null\<close> answers 200, pulls both records and
  decrements once. The post then has no record and \<^verbatim>\<open>upVotes\<close> is 1.
\<close>

theorem counters_match_records_counterexample:
  "status (fst (castVote ObjectId Up [fresh_post] id1 Undefined)) = 200 \<and>
   status (fst (castVote ObjectId Up
      (run ObjectId [\<lparr>req_kind = Up, req_id = id1, req_email = Undefined\<rparr>] [fresh_post])
      id1 Undefined)) = 200 \<and>
   status (fst (castVote ObjectId Up
      (run ObjectId [\<lparr>req_kind = Up, req_id = id1, req_email = Undefined\<rparr>,
                     \<lparr>req_kind = Up, req_id = id1, req_email = Undefined\<rparr>] [fresh_post])
      id1 Null)) = 200 \<and>
   map_option (\<lambda>p'. (votes p', upVotes p', count_votes ''up'' p'))
     (findOne (run ObjectId
        [\<lparr>req_kind = Up, req_id = id1, req_email = Undefined\<rparr>,
         \<lparr>req_kind = Up, req_id = id1, req_email = Undefined\<rparr>,
         \<lparr>req_kind = Up, req_id = id1, req_email = Null\<rparr>]
        [fresh_post]) id1)
   = Some (Some [], 1, 0)"
  by (simp add: handler_defs ObjectId_id1 fresh_post_def count_votes_def votes_list_def)

text \<open>
  C2, as amended. Take a post with no vote records and both counters 0, and any sequence
  of requests to the two endpoints, each carrying a string \<^verbatim>\<open>userEmail\<close> and each
  completed before the next starts (the requests may address any post, known or not).
  Afterwards the post
  is still there, \<^verbatim>\<open>upVotes\<close> is the number of its records of type \<^verbatim>\<open>up\<close>,
  \<^verbatim>\<open>downVotes\<close> the number of its records of type \<^verbatim>\<open>down\<close>, and neither counter is
  negative.
\<close>

theorem counters_match_records:
  assumes "findOne c i = Some p" and "votes p = None \<or> votes p = Some []"
    and "upVotes p = 0" and "downVotes p = 0"
    and "list_all (\<lambda>r. is_Str (req_email r)) rs"
  shows "\<exists>p'. findOne (run mk rs c) i = Some p' \<and>
           upVotes p' = count_votes ''up'' p' \<and> downVotes p' = count_votes ''down'' p' \<and>
           0 \<le> upVotes p' \<and> 0 \<le> downVotes p'"
proof -
  have ok: "ledger_ok p" using assms(2-4) by (rule ledger_ok_fresh)
  have step: "ledger_ok (f p)"
    if "is_Str u" "ledger_ok p" "branch_of k i u p = (msg, q, f)" for k u p msg q f
    using that ledger_ok_step by (cases u) (auto simp: is_Str_def)
  have "\<exists>p'. findOne (run mk rs c) i = Some p' \<and> ledger_ok p'"
    using assms(1) ok assms(5)
    by (rule run_invariant[where A = is_Str and I = ledger_ok, rotated]) (rule step)
  then obtain p' where "findOne (run mk rs c) i = Some p'" "ledger_ok p'" by blast
  then show ?thesis
    using count_votes_nonneg by (auto simp: ledger_ok_def)
qed

theorem counters_match_records_witness:
  "\<exists>p'. findOne (run ObjectId
            [\<lparr>req_kind = Up, req_id = id1, req_email = Str ''a@x.org''\<rparr>,
             \<lparr>req_kind = Down, req_id = id1, req_email = Str ''b@x.org''\<rparr>,
             \<lparr>req_kind = Down, req_id = id1, req_email = Str ''a@x.org''\<rparr>]
            [fresh_post]) id1 = Some p' \<and>
        upVotes p' = count_votes ''up'' p' \<and> downVotes p' = count_votes ''down'' p' \<and>
        0 \<le> upVotes p' \<and> 0 \<le> downVotes p'"
proof -
  have v: "votes fresh_post = None \<or> votes fresh_post = Some []"
    and u: "upVotes fresh_post = 0" and d: "downVotes fresh_post = 0"
    by (simp_all add: fresh_post_def)
  have rs: "list_all (\<lambda>r. is_Str (req_email r))
              [\<lparr>req_kind = Up, req_id = id1, req_email = Str ''a@x.org''\<rparr>,
               \<lparr>req_kind = Down, req_id = id1, req_email = Str ''b@x.org''\<rparr>,
               \<lparr>req_kind = Down, req_id = id1, req_email = Str ''a@x.org''\<rparr>]"
    by (simp add: is_Str_def)
  from counters_match_records[OF findOne_fresh v u d rs] show ?thesis .
qed

text \<open>
  C3, counterexample. The claim as stated fails: a voter whose state is \<open>up\<close> and who casts
  \<open>up\<close> twice is first taken to \<open>none\<close> and then back to \<open>up\<close>, as the first
  theorem below shows on a post with one upvote.
\<close>

theorem vote_twice_counterexample:
  "map_option (\<lambda>p'. voteState p' (Str ''a@x.org''))
     (findOne (snd (castVote ObjectId Up
        (snd (castVote ObjectId Up [upvoted_post] id1 (Str ''a@x.org'')))
        id1 (Str ''a@x.org''))) id1)
   = Some (Some ''up'')"
  by (simp add: handler_defs ObjectId_id1 upvoted_post_def)

text \<open>
  C3, as amended. For a post that exists and a voter with a string key whose state is
  \<open>none\<close>, two consecutive identical requests both answer 200 and leave the voter in
  state \<open>none\<close> with both counters at their values before the two requests.
\<close>

theorem vote_twice_from_none:
  assumes "mk ident = Some i" and "findOne c i = Some p" and "voteState p (Str e) = None"
  shows "status (fst (castVote mk k c ident (Str e))) = 200 \<and>
         status (fst (castVote mk k (snd (castVote mk k c ident (Str e))) ident (Str e))) = 200 \<and>
         map_option (\<lambda>p'. (voteState p' (Str e), upVotes p', downVotes p'))
           (findOne (snd (castVote mk k (snd (castVote mk k c ident (Str e))) ident (Str e))) i)
         = Some (None, upVotes p, downVotes p)"
proof -
  let ?c1 = "snd (castVote mk k c ident (Str e))"
  have s0: "voteState p (Str e) = map_option kind_name None" using assms(3) by simp
  note r1 = castVote_row[where mk = mk and ident = ident and k = k, OF assms(1,2) s0]
  then obtain p1 where p1: "findOne ?c1 i = Some p1"
    and st1: "voteState p1 (Str e) = map_option kind_name (Some k)"
    and c1: "upVotes p1 = upVotes p + (if k = Up then 1 else 0)"
            "downVotes p1 = downVotes p + (if k = Up then 0 else 1)"
    by (cases k) auto
  note r2 = castVote_row[where mk = mk and ident = ident and k = k, OF assms(1) p1 st1]
  from r1 r2 c1 show ?thesis
    by (cases k) (simp_all add: send_def send_status_def)
qed

theorem vote_twice_from_none_witness:
  "status (fst (castVote ObjectId Up [fresh_post] id1 (Str ''a@x.org''))) = 200 \<and>
   status (fst (castVote ObjectId Up (snd (castVote ObjectId Up [fresh_post] id1 (Str ''a@x.org'')))
      id1 (Str ''a@x.org''))) = 200 \<and>
   map_option (\<lambda>p'. (voteState p' (Str ''a@x.org''), upVotes p', downVotes p'))
     (findOne (snd (castVote ObjectId Up
        (snd (castVote ObjectId Up [fresh_post] id1 (Str ''a@x.org'')))
        id1 (Str ''a@x.org''))) id1)
   = Some (None, 0, 0)"
proof -
  have st: "voteState fresh_post (Str ''a@x.org'') = None"
    by (simp add: voteState_def existingVote_def fresh_post_def)
  from vote_twice_from_none[where mk = ObjectId and ident = id1 and k = Up,
      OF ObjectId_id1 findOne_fresh st]
  show ?thesis by (simp add: fresh_post_def)
qed

text \<open>
  C4. When the identifier is well formed and no post has it, either endpoint answers 404
  with the body \<^verbatim>\<open>{ message: "Post not found" }\<close> and the collection is the one before
  the request: no record is created and no document is modified.
\<close>

theorem castVote_unknown_post:
  assumes "mk ident = Some i" and "findOne c i = None"
  shows "castVote mk k c ident u
         = (\<lparr>status = 404, body = [(''message'', JStr ''Post not found'')]\<rparr>, c)"
  using assms by (cases k) (simp_all add: post_upvote_def post_downvote_def send_status_def)

theorem castVote_unknown_post_witness:
  "castVote ObjectId Down [fresh_post] id2 (Str ''a@x.org'')
   = (\<lparr>status = 404, body = [(''message'', JStr ''Post not found'')]\<rparr>, [fresh_post])"
proof -
  have "findOne [fresh_post] ''0123456789abcdef01234567'' = None"
    by (simp add: findOne_def fresh_post_def id1_def)
  with ObjectId_id2 show ?thesis
    by (rule castVote_unknown_post[where mk = ObjectId and ident = id2])
qed

text \<open>
  C5, counterexample. The claim as stated fails: the body of a successful answer holds the
  message and nothing else, so it does not hold the counters.
\<close>

theorem castVote_message_counterexample:
  "body (fst (castVote ObjectId Up [fresh_post] id1 (Str ''a@x.org'')))
   = [(''message'', JStr ''Upvote added'')] \<and>
   map_of (body (fst (castVote ObjectId Up [fresh_post] id1 (Str ''a@x.org'')))) ''upVotes'' = None"
  by (simp add: handler_defs ObjectId_id1 fresh_post_def)

text \<open>
  C5, as amended. For a post that exists and a voter with a string key in state \<open>none\<close>,
  \<open>up\<close> or \<open>down\<close>, the answer is 200 and its body is exactly the message of the
  transition taken.
\<close>

theorem castVote_message:
  assumes "mk ident = Some i" and "findOne c i = Some p"
    and "voteState p (Str e) = map_option kind_name S"
  shows "fst (castVote mk k c ident (Str e))
         = \<lparr>status = 200, body = [(''message'', JStr (spec_message S k))]\<rparr>"
  using castVote_row[where mk = mk and ident = ident and k = k, OF assms]
  by (simp add: send_def send_status_def)

theorem castVote_message_witness:
  "fst (castVote ObjectId Down [upvoted_post] id1 (Str ''a@x.org''))
   = \<lparr>status = 200, body = [(''message'', JStr ''Vote switched to downvote'')]\<rparr>"
proof -
  have st: "voteState upvoted_post (Str ''a@x.org'') = map_option kind_name (Some Up)"
    by (simp add: voteState_def existingVote_def upvoted_post_def)
  from castVote_message[where mk = ObjectId and ident = id1 and k = Down,
      OF ObjectId_id1 findOne_upvoted st]
  show ?thesis by simp
qed

text \<open>
  C6, counterexample. The claim as stated fails on both kinds of invalid input: a request
  without \<^verbatim>\<open>userEmail\<close> on a post without votes answers 200 and appends a record whose
  voter key is \<^verbatim>\<open>null\<close>, and a malformed identifier is answered with 500, not with a
  status between 400 and 499.
\<close>

theorem castVote_invalid_input_counterexample:
  "castVote ObjectId Up [fresh_post] id1 Undefined
   = (\<lparr>status = 200, body = [(''message'', JStr ''Upvote added'')]\<rparr>,
      [fresh_post\<lparr>votes := Some [\<lparr>userEmail = Null, voteType = ''up''\<rparr>], upVotes := 1\<rparr>]) \<and>
   status (fst (castVote ObjectId Up [fresh_post] ''not-an-id'' (Str ''a@x.org''))) = 500"
  by (simp add: handler_defs ObjectId_id1 ObjectId_malformed fresh_post_def)

text \<open>
  C6, as amended. A request whose identifier the constructor rejects is answered with 500 and
  the body \<^verbatim>\<open>{ message: "Internal server error" }\<close>, and the collection stays as it
  is. A request without \<^verbatim>\<open>userEmail\<close> on a post that exists is not rejected: it answers
  200 and the counter of the endpoint moves by one.
\<close>

theorem castVote_invalid_input:
  "(mk ident = None \<longrightarrow>
      castVote mk k c ident u
      = (\<lparr>status = 500, body = [(''message'', JStr ''Internal server error'')]\<rparr>, c)) \<and>
   (mk ident = Some i \<and> findOne c i = Some p \<longrightarrow>
      status (fst (castVote mk k c ident Undefined)) = 200 \<and>
      (\<exists>p'. findOne (snd (castVote mk k c ident Undefined)) i = Some p' \<and>
         (case k of Up \<Rightarrow> \<bar>upVotes p' - upVotes p\<bar> = 1
          | Down \<Rightarrow> \<bar>downVotes p' - downVotes p\<bar> = 1)))"
proof (intro conjI impI)
  assume "mk ident = None"
  then show "castVote mk k c ident u
      = (\<lparr>status = 500, body = [(''message'', JStr ''Internal server error'')]\<rparr>, c)"
    by (cases k)
      (simp_all add: post_upvote_def post_downvote_def internal_error_def send_status_def)
next
  assume a: "mk ident = Some i \<and> findOne c i = Some p"
  obtain msg q f where b: "branch_of k i Undefined p = (msg, q, f)"
    by (cases "branch_of k i Undefined p") auto
  have cv: "castVote mk k c ident Undefined = (send msg, updateOne q f c)"
    using a b castVote_found(1) by blast
  have fo: "findOne (updateOne q f c) i = Some (f p)"
    using a b castVote_found(2) by blast
  from cv show "status (fst (castVote mk k c ident Undefined)) = 200"
    by (simp add: send_def send_status_def)
  from cv fo missing_email_counter[OF b]
  show "\<exists>p'. findOne (snd (castVote mk k c ident Undefined)) i = Some p' \<and>
         (case k of Up \<Rightarrow> \<bar>upVotes p' - upVotes p\<bar> = 1
          | Down \<Rightarrow> \<bar>downVotes p' - downVotes p\<bar> = 1)"
    by simp
qed

theorem castVote_invalid_input_witness:
  "castVote ObjectId Up [fresh_post] ''not-an-id'' (Str ''a@x.org'')
   = (\<lparr>status = 500, body = [(''message'', JStr ''Internal server error'')]\<rparr>, [fresh_post]) \<and>
   status (fst (castVote ObjectId Down [fresh_post] id1 Undefined)) = 200 \<and>
   (\<exists>p'. findOne (snd (castVote ObjectId Down [fresh_post] id1 Undefined)) id1 = Some p' \<and>
      \<bar>downVotes p' - downVotes fresh_post\<bar> = 1)"
  using castVote_invalid_input[of ObjectId "''not-an-id''" Up "[fresh_post]" "Str ''a@x.org''"]
    castVote_invalid_input[of ObjectId id1 Down "[fresh_post]" _ id1 fresh_post]
    ObjectId_malformed ObjectId_id1 findOne_fresh
  by simp

text \<open>
  C7. Take a post in which every voter with a string key has at most one record, as in a
  post without votes, and any sequence of completed requests. Afterwards every such voter
  still has at most one record in the post, and the next request of a voter does one of
  three things to the records of that voter: with no record it creates one of the requested
  type, with a record of the requested type it removes it, and with a record of the other
  type it keeps the record and changes its type.
\<close>

theorem one_record_per_voter:
  assumes "findOne c i = Some p" and "\<forall>e. length (records_of p (Str e)) \<le> 1"
  shows "\<exists>p1. findOne (run mk rs c) i = Some p1 \<and>
           (\<forall>e. length (records_of p1 (Str e)) \<le> 1) \<and>
           (\<forall>e k ident. mk ident = Some i \<longrightarrow>
              map_option (\<lambda>p2. records_of p2 (Str e))
                (findOne (snd (castVote mk k (run mk rs c) ident (Str e))) i)
              = Some (case existingVote p1 (Str e) of
                        None \<Rightarrow> [\<lparr>userEmail = Str e, voteType = kind_name k\<rparr>]
                      | Some v \<Rightarrow> if voteType v = kind_name k then []
                                  else [v\<lparr>voteType := kind_name k\<rparr>]))"
proof -
  let ?I = "\<lambda>p. \<forall>e. length (records_of p (Str e)) \<le> 1"
  have step: "?I (f p)" if "True" "?I p" "branch_of k i u p = (msg, q, f)" for k u p msg q f
    using that records_step_le by blast
  have "\<exists>p'. findOne (run mk rs c) i = Some p' \<and> ?I p'"
    using assms(1,2)
    by (rule run_invariant[where A = "\<lambda>_. True" and I = ?I, rotated])
       (use step in \<open>simp_all add: list_all_iff\<close>)
  then obtain p1 where p1: "findOne (run mk rs c) i = Some p1" "?I p1" by blast
  have "map_option (\<lambda>p2. records_of p2 (Str e))
          (findOne (snd (castVote mk k (run mk rs c) ident (Str e))) i)
        = Some (case existingVote p1 (Str e) of
                  None \<Rightarrow> [\<lparr>userEmail = Str e, voteType = kind_name k\<rparr>]
                | Some v \<Rightarrow> if voteType v = kind_name k then []
                            else [v\<lparr>voteType := kind_name k\<rparr>])"
    if mk: "mk ident = Some i" for e k ident
  proof -
    obtain msg q f where b: "branch_of k i (Str e) p1 = (msg, q, f)"
      by (cases "branch_of k i (Str e) p1") auto
    have "castVote mk k (run mk rs c) ident (Str e) = (send msg, updateOne q f (run mk rs c))"
      using mk p1(1) b by (rule castVote_found(1))
    moreover have "findOne (updateOne q f (run mk rs c)) i = Some (f p1)"
      using mk p1(1) b by (rule castVote_found(2))
    ultimately show ?thesis
      using records_lifecycle[OF b] p1(2) by simp
  qed
  with p1 show ?thesis by blast
qed

theorem one_record_per_voter_witness:
  "(\<exists>p1. findOne (run ObjectId
            [\<lparr>req_kind = Up, req_id = id1, req_email = Str ''a@x.org''\<rparr>,
             \<lparr>req_kind = Down, req_id = id1, req_email = Str ''a@x.org''\<rparr>]
            [fresh_post]) id1 = Some p1 \<and>
     length (records_of p1 (Str ''a@x.org'')) \<le> 1) \<and>
   ObjectId id1 = Some id1 \<and>
   map_option (\<lambda>p2. records_of p2 (Str ''a@x.org''))
     (findOne (snd (castVote ObjectId Down
        (run ObjectId
           [\<lparr>req_kind = Up, req_id = id1, req_email = Str ''a@x.org''\<rparr>,
            \<lparr>req_kind = Down, req_id = id1, req_email = Str ''a@x.org''\<rparr>]
           [fresh_post])
        id1 (Str ''a@x.org''))) id1)
   = Some []"
proof -
  let ?rs = "[\<lparr>req_kind = Up, req_id = id1, req_email = Str ''a@x.org''\<rparr>,
              \<lparr>req_kind = Down, req_id = id1, req_email = Str ''a@x.org''\<rparr>]"
  have h: "\<forall>e. length (records_of fresh_post (Str e)) \<le> 1"
    by (simp add: records_of_def votes_list_def fresh_post_def)
  have r: "findOne (run ObjectId ?rs [fresh_post]) id1
           = Some (fresh_post\<lparr>votes := Some [\<lparr>userEmail = Str ''a@x.org'', voteType = ''down''\<rparr>],
                                downVotes := 1\<rparr>)"
    by (simp add: handler_defs ObjectId_id1 fresh_post_def)
  from one_record_per_voter[OF findOne_fresh h, of ObjectId ?rs]
  obtain p1 where p1: "findOne (run ObjectId ?rs [fresh_post]) id1 = Some p1"
    and le: "\<forall>e. length (records_of p1 (Str e)) \<le> 1"
    and nx: "\<forall>e k ident. ObjectId ident = Some id1 \<longrightarrow>
              map_option (\<lambda>p2. records_of p2 (Str e))
                (findOne (snd (castVote ObjectId k (run ObjectId ?rs [fresh_post]) ident (Str e))) id1)
              = Some (case existingVote p1 (Str e) of
                        None \<Rightarrow> [\<lparr>userEmail = Str e, voteType = kind_name k\<rparr>]
                      | Some v \<Rightarrow> if voteType v = kind_name k then []
                                  else [v\<lparr>voteType := kind_name k\<rparr>])"
    by blast
  from p1 r have ev: "existingVote p1 (Str ''a@x.org'')
                      = Some \<lparr>userEmail = Str ''a@x.org'', voteType = ''down''\<rparr>"
    by (auto simp: existingVote_def)
  from nx ObjectId_id1
  have "map_option (\<lambda>p2. records_of p2 (Str ''a@x.org''))
          (findOne (snd (castVote ObjectId Down (run ObjectId ?rs [fresh_post]) id1
             (Str ''a@x.org''))) id1)
        = Some (case existingVote p1 (Str ''a@x.org'') of
                  None \<Rightarrow> [\<lparr>userEmail = Str ''a@x.org'', voteType = kind_name Down\<rparr>]
                | Some v \<Rightarrow> if voteType v = kind_name Down then []
                            else [v\<lparr>voteType := kind_name Down\<rparr>])"
    by blast
  with ev have "map_option (\<lambda>p2. records_of p2 (Str ''a@x.org''))
          (findOne (snd (castVote ObjectId Down (run ObjectId ?rs [fresh_post]) id1
             (Str ''a@x.org''))) id1) = Some []"
    by simp
  with p1 le ObjectId_id1 show ?thesis by blast
qed

text \<open>
  C8. The listing returns every post once, each with \<^verbatim>\<open>votesCount\<close> equal to
  \<^verbatim>\<open>upVotes - downVotes\<close> of that post as stored, in descending order of that number;
  it leaves the collection as it is; and a vote request leaves every attribute of every
  post other than \<^verbatim>\<open>votes\<close>, \<^verbatim>\<open>upVotes\<close> and \<^verbatim>\<open>downVotes\<close> as it is, so it stores
  no score.
\<close>

theorem popularity_listing:
  "sorted_wrt (\<lambda>a b. a \<ge> b) (map votesCount (fst (sort_by_popularity c))) \<and>
   mset (map doc (fst (sort_by_popularity c))) = mset c \<and>
   list_all (\<lambda>l. votesCount l = upVotes (doc l) - downVotes (doc l))
     (fst (sort_by_popularity c)) \<and>
   snd (sort_by_popularity c) = c \<and>
   map payload (snd (castVote mk k c ident u)) = map payload c"
proof -
  let ?ys = "sort_key (\<lambda>l. - votesCount l) (map addFields c)"
  have "sorted (map (\<lambda>l. - votesCount l) ?ys)" by (rule sorted_sort_key)
  then have 1: "sorted_wrt (\<lambda>a b. a \<ge> b) (map votesCount ?ys)"
    by (simp add: sorted_wrt_map)
  have "mset ?ys = mset (map addFields c)" by simp
  then have "image_mset doc (mset ?ys) = image_mset doc (mset (map addFields c))"
    by (rule arg_cong)
  moreover have "map doc (map addFields c) = c"
    by (induction c) (simp_all add: addFields_def)
  then have "image_mset doc (mset (map addFields c)) = mset c"
    by (metis mset_map)
  ultimately have 2: "mset (map doc ?ys) = mset c"
    by (metis mset_map)
  have 3: "list_all (\<lambda>l. votesCount l = upVotes (doc l) - downVotes (doc l)) ?ys"
    by (auto simp: list_all_iff addFields_def)
  from 1 2 3 castVote_keeps_payload show ?thesis
    by (simp add: sort_by_popularity_def)
qed

theorem popularity_listing_witness:
  "map votesCount (fst (sort_by_popularity [fresh_post, upvoted_post])) = [1, 0] \<and>
   sorted_wrt (\<lambda>a b. a \<ge> b) (map votesCount (fst (sort_by_popularity [fresh_post, upvoted_post])))"
  using popularity_listing[of "[fresh_post, upvoted_post]"]
  by (simp add: sort_by_popularity_def addFields_def fresh_post_def upvoted_post_def)

text \<open>
  C9. Two requests of voters with different string keys on the same existing post, run
  under any schedule that interleaves the two steps of the one with the two steps of the
  other: both are answered 200, with the answers they get when run alone, and afterwards
  each counter of the post is its value before plus the change that the first request makes
  when run alone plus the change that the second makes when run alone.
\<close>

theorem concurrent_votes_distinct_users:
  assumes "mk ida = Some i" and "mk idb = Some i" and "findOne c i = Some p"
    and "ea \<noteq> eb" and "sched \<in> shuffles [True, True] [False, False]"
  shows "\<exists>c' pa pb p'.
           interleave mk sched (Start ka ida (Str ea), Start kb idb (Str eb), c)
             = (Done (fst (castVote mk ka c ida (Str ea))),
                Done (fst (castVote mk kb c idb (Str eb))), c') \<and>
           status (fst (castVote mk ka c ida (Str ea))) = 200 \<and>
           status (fst (castVote mk kb c idb (Str eb))) = 200 \<and>
           findOne (snd (castVote mk ka c ida (Str ea))) i = Some pa \<and>
           findOne (snd (castVote mk kb c idb (Str eb))) i = Some pb \<and>
           findOne c' i = Some p' \<and>
           upVotes p' = upVotes p + (upVotes pa - upVotes p) + (upVotes pb - upVotes p) \<and>
           downVotes p' = downVotes p + (downVotes pa - downVotes p) + (downVotes pb - downVotes p)"
proof -
  obtain mA qA fA where bA: "branch_of ka i (Str ea) p = (mA, qA, fA)"
    by (cases "branch_of ka i (Str ea) p") auto
  obtain mB qB fB where bB: "branch_of kb i (Str eb) p = (mB, qB, fB)"
    by (cases "branch_of kb i (Str eb) p") auto
  have seqA: "castVote mk ka c ida (Str ea) = (send mA, updateOne qA fA c)"
    using assms(1,3) bA by (rule castVote_found(1))
  have seqB: "castVote mk kb c idb (Str eb) = (send mB, updateOne qB fB c)"
    using assms(2,3) bB by (rule castVote_found(1))
  have foA: "findOne (updateOne qA fA c) i = Some (fA p)"
    using bA assms(3) by (rule write_found)
  have foB: "findOne (updateOne qB fB c) i = Some (fB p)"
    using bB assms(3) by (rule write_found)
  have bB': "branch_of kb i (Str eb) (fA p) = (mB, qB, fB)"
    using branch_of_cong[OF branch_other_voter[OF bA assms(4)]] bB by simp
  have bA': "branch_of ka i (Str ea) (fB p) = (mA, qA, fA)"
    using branch_of_cong[OF branch_other_voter[OF bB assms(4)[symmetric]]] bA by simp
  have foAB: "findOne (updateOne qB fB (updateOne qA fA c)) i = Some (fB (fA p))"
    using bB' foA by (rule write_found)
  have foBA: "findOne (updateOne qA fA (updateOne qB fB c)) i = Some (fA (fB p))"
    using bA' foB by (rule write_found)
  note dA = branch_delta[OF bA] and dB = branch_delta[OF bB]
  have ctrAB: "upVotes (fB (fA p)) = upVotes p + (upVotes (fA p) - upVotes p) + (upVotes (fB p) - upVotes p)"
    "downVotes (fB (fA p)) = downVotes p + (downVotes (fA p) - downVotes p) + (downVotes (fB p) - downVotes p)"
    using dB[of "fA p"] by simp_all
  have ctrBA: "upVotes (fA (fB p)) = upVotes p + (upVotes (fA p) - upVotes p) + (upVotes (fB p) - upVotes p)"
    "downVotes (fA (fB p)) = downVotes p + (downVotes (fA p) - downVotes p) + (downVotes (fB p) - downVotes p)"
    using dA[of "fB p"] by simp_all
  have st: "status (send m) = 200" for m by (simp add: send_def send_status_def)
  have fin: "interleave mk sched (Start ka ida (Str ea), Start kb idb (Str eb), c)
               = (Done (send mA), Done (send mB), updateOne qB fB (updateOne qA fA c)) \<or>
             interleave mk sched (Start ka ida (Str ea), Start kb idb (Str eb), c)
               = (Done (send mA), Done (send mB), updateOne qA fA (updateOne qB fB c))"
    using shuffles_two_two[OF assms(5)] assms(1-3) bA bB bA' bB' foA foB
    by (elim disjE) simp_all
  then show ?thesis
  proof
    assume "interleave mk sched (Start ka ida (Str ea), Start kb idb (Str eb), c)
               = (Done (send mA), Done (send mB), updateOne qB fB (updateOne qA fA c))"
    with seqA seqB foA foB foAB ctrAB st show ?thesis by simp
  next
    assume "interleave mk sched (Start ka ida (Str ea), Start kb idb (Str eb), c)
               = (Done (send mA), Done (send mB), updateOne qA fA (updateOne qB fB c))"
    with seqA seqB foA foB foBA ctrBA st show ?thesis by simp
  qed
qed

theorem concurrent_votes_distinct_users_witness:
  "\<exists>c' p'. interleave ObjectId [True, False, False, True]
              (Start Up id1 (Str ''a@x.org''), Start Down id1 (Str ''b@x.org''), [fresh_post])
            = (Done (send ''Upvote added''), Done (send ''Downvote added''), c') \<and>
           findOne c' id1 = Some p' \<and> upVotes p' = 1 \<and> downVotes p' = 1"
proof -
  have ne: "''a@x.org'' \<noteq> ''b@x.org''" by simp
  have sh: "[True, False, False, True] \<in> shuffles [True, True] [False, False]"
    by (simp add: shuffles.simps)
  have a: "castVote ObjectId Up [fresh_post] id1 (Str ''a@x.org'')
           = (send ''Upvote added'',
              [fresh_post\<lparr>votes := Some [\<lparr>userEmail = Str ''a@x.org'', voteType = ''up''\<rparr>],
                           upVotes := 1\<rparr>])"
    by (simp add: handler_defs ObjectId_id1 fresh_post_def)
  have b: "castVote ObjectId Down [fresh_post] id1 (Str ''b@x.org'')
           = (send ''Downvote added'',
              [fresh_post\<lparr>votes := Some [\<lparr>userEmail = Str ''b@x.org'', voteType = ''down''\<rparr>],
                           downVotes := 1\<rparr>])"
    by (simp add: handler_defs ObjectId_id1 fresh_post_def)
  from concurrent_votes_distinct_users[where mk = ObjectId and ida = id1 and idb = id1
      and ka = Up and kb = Down, OF ObjectId_id1 ObjectId_id1 findOne_fresh ne sh]
  show ?thesis
    unfolding a b by (auto simp: findOne_def fresh_post_def)
qed

text \<open>
  C10. For a post that exists and has no field \<^verbatim>\<open>votes\<close>, a request of a voter with a
  string key succeeds with the message of an added vote; afterwards \<^verbatim>\<open>votes\<close> is an
  array with the single record of that voter and the requested type, the counter of the
  requested type is one higher and the other counter is unchanged.
\<close>

theorem castVote_absent_votes:
  assumes "mk ident = Some i" and "findOne c i = Some p" and "votes p = None"
  shows "fst (castVote mk k c ident (Str e)) = send (spec_message None k) \<and>
         map_option (\<lambda>p'. (votes p', upVotes p', downVotes p'))
           (findOne (snd (castVote mk k c ident (Str e))) i)
         = Some (Some [\<lparr>userEmail = Str e, voteType = kind_name k\<rparr>],
                 upVotes p + (if k = Up then 1 else 0),
                 downVotes p + (if k = Down then 1 else 0))"
proof -
  from assms(3) have ev: "existingVote p (Str e) = None" by (simp add: existingVote_def)
  obtain msg q f where b: "branch_of k i (Str e) p = (msg, q, f)"
    by (cases "branch_of k i (Str e) p") auto
  have cv: "castVote mk k c ident (Str e) = (send msg, updateOne q f c)"
    using assms(1,2) b by (rule castVote_found(1))
  have fo: "findOne (updateOne q f c) i = Some (f p)"
    using assms(1,2) b by (rule castVote_found(2))
  from b ev assms(3) cv fo show ?thesis
    by (cases k)
      (auto simp: upvote_branch_def downvote_branch_def push_vote_def inc_def)
qed

theorem castVote_absent_votes_witness:
  "fst (castVote ObjectId Down [fresh_post] id1 (Str ''b@x.org'')) = send ''Downvote added'' \<and>
   map_option (\<lambda>p'. (votes p', upVotes p', downVotes p'))
     (findOne (snd (castVote ObjectId Down [fresh_post] id1 (Str ''b@x.org''))) id1)
   = Some (Some [\<lparr>userEmail = Str ''b@x.org'', voteType = ''down''\<rparr>], 0, 1)"
proof -
  have v: "votes fresh_post = None" by (simp add: fresh_post_def)
  from castVote_absent_votes[where mk = ObjectId and ident = id1 and k = Down,
      OF ObjectId_id1 findOne_fresh v]
  show ?thesis by (simp add: fresh_post_def)
qed


end
